theory Spec2Isabelle
  imports
    Complex_Main
    "HOL-Library.Word"
    "HOL-Library.Char_ord"
    "HOL-Library.List_Lexorder"
    "HOL-Library.Sublist"
    "HOL-Library.AList"
begin

unbundle bit_operations_syntax

section \<open>Bytes, keys and the ordered key-value store\<close>

text \<open>
  A Go \<open>string\<close> and a \<open>[]byte\<close> key are sequences of bytes; they are modelled as
  \<open>string\<close> (a list of \<open>char\<close>, one \<open>char\<close> per byte), ordered as \<open>bytes.Compare\<close>
  orders them: lexicographically by byte value, a proper prefix first. Stored values are
  lists of 8-bit words, counters are 32-bit words (\<open>uint32\<close>).
\<close>

type_synonym byte = "8 word"
type_synonym bytes = "byte list"
type_synonym u32 = "32 word"

definition nullByte :: char where
  "nullByte = CHR 0x00"

text \<open>
  The store is LevelDB, an external collaborator of the repository. It is modelled by its
  logical content: the list of its key/value pairs in ascending key order, each key at
  most once (\<open>db_wf\<close>). \<open>Has\<close>, \<open>Get\<close> and \<open>Put\<close> are total on this in-memory
  content; input/output failures of a real store are outside the model, with the one
  exception that \<open>Get\<close> of a missing key is the store's not-found error.
\<close>

type_synonym db = "(string \<times> bytes) list"

definition db_wf :: "db \<Rightarrow> bool" where
  "db_wf s \<longleftrightarrow> sorted (map fst s) \<and> distinct (map fst s)"

definition db_get :: "db \<Rightarrow> string \<Rightarrow> bytes option" where
  "db_get s k = map_of s k"

definition db_has :: "db \<Rightarrow> string \<Rightarrow> bool" where
  "db_has s k \<longleftrightarrow> db_get s k \<noteq> None"

definition db_put :: "string \<Rightarrow> bytes \<Rightarrow> db \<Rightarrow> db" where
  "db_put k v s = insort_key fst (k, v) (filter (\<lambda>e. fst e \<noteq> k) s)"

text \<open>
  \<open>util.BytesPrefix(prefix)\<close> with \<open>db.NewIterator\<close>: the pairs whose key starts with
  the prefix, in ascending key order.
\<close>

definition db_scan :: "db \<Rightarrow> string \<Rightarrow> (string \<times> bytes) list" where
  "db_scan s p = filter (\<lambda>e. prefix p (fst e)) s"

section \<open>Failures\<close>

text \<open>
  The errors the code builds with \<open>errors.New\<close> are named after the condition they
  report: \<open>CorruptIndex\<close> for "Key ... has invalid encoding of uint32 value" and for
  "Invalid key format ...; possible index corruption?", \<open>Overflow\<close> for "Key ... has
  value ... and cannot be incremented anymore". \<open>StoreError\<close> is an error of the store
  itself. \<open>RuntimePanic\<close> is not an error value: it stands for a Go run-time panic
  (index out of range, assignment to an entry of a nil map), after which the call does
  not return to its caller.
\<close>

datatype failure = StoreError | CorruptIndex | Overflow | RuntimePanic

section \<open>Helpers shared by both indexes\<close>

text \<open>
  \<open>tokenize\<close> is \<open>regexp.MustCompile("\\s+").Split(input, -1)\<close>. The class \<open>\s\<close> of
  Go's regexp syntax is tab, line feed, form feed, carriage return and space. Split cuts
  the input at every maximal run of such bytes and keeps the piece before the first run
  and the piece after the last one, also when they are empty. \<open>split_ws tok cs\<close> reads
  \<open>cs\<close> with the bytes \<open>tok\<close> of the current piece already read: at a whitespace
  byte the piece ends and the rest of the run is skipped.
\<close>

definition isSpace :: "char \<Rightarrow> bool" where
  "isSpace c \<longleftrightarrow> c = CHR 0x09 \<or> c = CHR 0x0A \<or> c = CHR 0x0C \<or> c = CHR 0x0D \<or> c = CHR 0x20"

function split_ws :: "string \<Rightarrow> string \<Rightarrow> string list" where
  "split_ws tok [] = [tok]"
| "split_ws tok (c # cs) =
     (if isSpace c then tok # split_ws [] (dropWhile isSpace cs)
      else split_ws (tok @ [c]) cs)"
  by pat_completeness auto
termination
  by (relation "measure (\<lambda>(tok, cs). length cs)") (auto simp: length_dropWhile_le less_Suc_eq_le)

definition tokenize :: "string \<Rightarrow> string list" where
  "tokenize input = split_ws [] input"

definition joinWithNullSep :: "string \<Rightarrow> string \<Rightarrow> string" where
  "joinWithNullSep token filename = token @ [nullByte] @ filename"

text \<open>
  \<open>iterate\<close> calls \<open>iterFunc\<close> on every pair of the prefix range, in order, and stops at
  the first error. The variables the closure updates are the state \<open>a\<close> of the loop.
\<close>

fun iterate_loop ::
  "(string \<times> bytes) list \<Rightarrow> (string \<Rightarrow> bytes \<Rightarrow> 'a \<Rightarrow> failure + 'a) \<Rightarrow> 'a \<Rightarrow> failure + 'a"
where
  "iterate_loop [] iterFunc a = Inr a"
| "iterate_loop (e # es) iterFunc a =
     (case iterFunc (fst e) (snd e) a of
        Inl err \<Rightarrow> Inl err
      | Inr a' \<Rightarrow> iterate_loop es iterFunc a')"

definition iterate ::
  "db \<Rightarrow> string \<Rightarrow> (string \<Rightarrow> bytes \<Rightarrow> 'a \<Rightarrow> failure + 'a) \<Rightarrow> 'a \<Rightarrow> failure + 'a"
where
  "iterate s p iterFunc a = iterate_loop (db_scan s p) iterFunc a"

text \<open>\<open>bytes.IndexByte(key, c)\<close>: the first position of \<open>c\<close>, or \<open>None\<close> for \<open>-1\<close>.\<close>

fun IndexByte :: "string \<Rightarrow> char \<Rightarrow> nat option" where
  "IndexByte [] c = None"
| "IndexByte (x # xs) c = (if x = c then Some 0 else map_option Suc (IndexByte xs c))"

section \<open>Big-endian counters\<close>

text \<open>
  \<open>binary.BigEndian.PutUint32(b, v)\<close> writes the four bytes of \<open>v\<close> into \<open>b[0..3]\<close>
  and \<open>binary.BigEndian.Uint32(b)\<close> reads them; both panic when \<open>b\<close> is shorter
  than four bytes (\<open>None\<close>).
\<close>

definition PutUint32 :: "bytes \<Rightarrow> u32 \<Rightarrow> bytes option" where
  "PutUint32 b v =
     (if length b < 4 then None
      else Some (b[0 := ucast (drop_bit 24 v), 1 := ucast (drop_bit 16 v),
                   2 := ucast (drop_bit 8 v), 3 := ucast v]))"

definition Uint32 :: "bytes \<Rightarrow> u32 option" where
  "Uint32 b =
     (if length b < 4 then None
      else Some (ucast (b ! 3) OR push_bit 8 (ucast (b ! 2)) OR
                 push_bit 16 (ucast (b ! 1)) OR push_bit 24 (ucast (b ! 0))))"

definition MaxUint32 :: u32 where
  "MaxUint32 = 0xFFFFFFFF"

section \<open>The vector index\<close>

definition ftPrefix :: string where "ftPrefix = ''ft''"
definition dfPrefix :: string where "dfPrefix = ''df''"
definition tfPrefix :: string where "tfPrefix = ''tf''"

text \<open>
  \<open>dfCache\<close> is a Go map; \<open>None\<close> is the nil map, which reads as empty and panics on
  assignment. The embedded \<open>sync.Mutex\<close> is never locked and is left out.
\<close>

record VectorIndex =
  db :: db
  dfCache :: "(string \<rightharpoonup> u32) option"

text \<open>
  \<open>increment\<close> returns the error, if any, together with the index after the call, so
  that what a failed call wrote stays visible.
\<close>

definition store_incremented :: "string \<Rightarrow> bytes \<Rightarrow> u32 \<Rightarrow> VectorIndex \<Rightarrow> failure option \<times> VectorIndex" where
  "store_incremented keyBytes valueBytes val v =
     (if val = MaxUint32 then (Some Overflow, v)
      else
        (case PutUint32 valueBytes (val + 1) of
           None \<Rightarrow> (Some RuntimePanic, v)
         | Some valueBytes' \<Rightarrow> (None, v\<lparr>db := db_put keyBytes valueBytes' (db v)\<rparr>)))"

definition increment :: "string \<Rightarrow> VectorIndex \<Rightarrow> failure option \<times> VectorIndex" where
  "increment keyBytes v =
     (if \<not> db_has (db v) keyBytes then
        (case PutUint32 (replicate 4 0) 1 of
           None \<Rightarrow> (Some RuntimePanic, v)
         | Some valueBytes \<Rightarrow> (None, v\<lparr>db := db_put keyBytes valueBytes (db v)\<rparr>))
      else
        (case db_get (db v) keyBytes of
           None \<Rightarrow> (Some StoreError, v)
         | Some valueBytes \<Rightarrow>
             if length valueBytes = 0 then store_incremented keyBytes valueBytes 0 v
             else if length valueBytes = 4 then
               (case Uint32 valueBytes of
                  None \<Rightarrow> (Some RuntimePanic, v)
                | Some val \<Rightarrow> store_incremented keyBytes valueBytes val v)
             else (Some CorruptIndex, v)))"

text \<open>Calling \<open>increment\<close> repeatedly on one key, stopping at the first failure.\<close>

fun increment_times :: "nat \<Rightarrow> string \<Rightarrow> VectorIndex \<Rightarrow> failure option \<times> VectorIndex" where
  "increment_times 0 keyBytes v = (None, v)"
| "increment_times (Suc n) keyBytes v =
     (case increment keyBytes v of
        (Some err, v') \<Rightarrow> (Some err, v')
      | (None, v') \<Rightarrow> increment_times n keyBytes v')"

text \<open>The four bytes of a number, most significant first, written with division.\<close>

definition big_endian4 :: "nat \<Rightarrow> bytes" where
  "big_endian4 n = [of_nat (n div 2 ^ 24), of_nat (n div 2 ^ 16), of_nat (n div 2 ^ 8), of_nat n]"

text \<open>
  \<open>loadDFCache\<close> fills a fresh map from the pairs under the \<open>df\<close> prefix; the term is
  the key without the prefix.
\<close>

definition loadDFCache_iterFunc :: "string \<Rightarrow> bytes \<Rightarrow> (string \<rightharpoonup> u32) \<Rightarrow> failure + (string \<rightharpoonup> u32)" where
  "loadDFCache_iterFunc key val cache =
     (let term = drop (length dfPrefix) key in
      if length val \<noteq> 4 then Inl CorruptIndex
      else
        (case Uint32 val of
           None \<Rightarrow> Inl RuntimePanic
         | Some n \<Rightarrow> Inr (cache(term \<mapsto> n))))"

definition loadDFCache :: "db \<Rightarrow> failure + (string \<rightharpoonup> u32)" where
  "loadDFCache s = iterate s dfPrefix loadDFCache_iterFunc Map.empty"

text \<open>
  \<open>OpenVectorIndex\<close> takes the outcome of \<open>leveldb.OpenFile(location, nil)\<close>: an error
  or the content of the store at the location. The error that \<open>loadDFCache\<close> returns is
  assigned and not looked at; with it comes the nil map.
\<close>

definition OpenVectorIndex :: "failure + db \<Rightarrow> failure + VectorIndex" where
  "OpenVectorIndex opened =
     (case opened of
        Inl err \<Rightarrow> Inl err
      | Inr s \<Rightarrow>
          Inr \<lparr>db = s,
               dfCache = (case loadDFCache s of Inl err \<Rightarrow> None | Inr cache \<Rightarrow> Some cache)\<rparr>)"


fun increment_all :: "string list \<Rightarrow> VectorIndex \<Rightarrow> failure option \<times> VectorIndex" where
  "increment_all [] v = (None, v)"
| "increment_all (keyBytes # rest) v =
     (case increment keyBytes v of
        (Some err, v') \<Rightarrow> (Some err, v')
      | (None, v') \<Rightarrow> increment_all rest v')"

text \<open>The loop of \<open>Add\<close> over the tokens; \<open>dfCache[token]++\<close> reads a missing entry as 0.\<close>

fun Add_loop :: "string \<Rightarrow> string list \<Rightarrow> VectorIndex \<Rightarrow> failure option \<times> VectorIndex" where
  "Add_loop filename [] v = (None, v)"
| "Add_loop filename (token # tokens) v =
     (let ftKey = ftPrefix @ joinWithNullSep filename token;
          dfKey = dfPrefix @ token;
          tfKey = tfPrefix @ joinWithNullSep token filename
      in
        case increment_all [ftKey, dfKey, tfKey] v of
          (Some err, v') \<Rightarrow> (Some err, v')
        | (None, v') \<Rightarrow>
            (case dfCache v' of
               None \<Rightarrow> (Some RuntimePanic, v')
             | Some c \<Rightarrow>
                 Add_loop filename tokens
                   (v'\<lparr>dfCache := Some (c(token \<mapsto> (case c token of None \<Rightarrow> 0 | Some n \<Rightarrow> n) + 1))\<rparr>)))"

definition VectorIndex_Add :: "string \<Rightarrow> string \<Rightarrow> VectorIndex \<Rightarrow> failure option \<times> VectorIndex" where
  "VectorIndex_Add filename contents v = Add_loop filename (tokenize contents) v"

text \<open>A sequence of \<open>Add\<close> calls (file name, contents), stopping at the first failure.\<close>

fun Add_all :: "(string \<times> string) list \<Rightarrow> VectorIndex \<Rightarrow> failure option \<times> VectorIndex" where
  "Add_all [] v = (None, v)"
| "Add_all (a # rest) v =
     (case VectorIndex_Add (fst a) (snd a) v of
        (Some err, v') \<Rightarrow> (Some err, v')
      | (None, v') \<Rightarrow> Add_all rest v')"

subsection \<open>Scoring\<close>

text \<open>
  A Go map that the code ranges over is an association list with one entry per key; the
  order of the list stands for the order of the iteration, which Go leaves open.
  \<open>float64\<close> is modelled by \<open>real\<close>: the arithmetic is exact, without rounding,
  infinities or NaN. Where Go divides by zero (the weight of a document's term that is
  not in the cache, the score when a magnitude is 0) its result is an infinity or NaN;
  the model has there the value that division by zero has on the reals of HOL, which
  is 0.
\<close>

definition cache_lookup :: "(string \<rightharpoonup> u32) option \<Rightarrow> string \<Rightarrow> u32 option" where
  "cache_lookup c term = (case c of None \<Rightarrow> None | Some m \<Rightarrow> m term)"









subsection \<open>Search\<close>






section \<open>The presence-only inverted index\<close>

record InvertedIndex =
  ii_db :: db

definition makeKey :: "string \<Rightarrow> string \<Rightarrow> string" where
  "makeKey token filename = token @ [nullByte] @ filename"

definition OpenInvertedIndex :: "failure + db \<Rightarrow> failure + InvertedIndex" where
  "OpenInvertedIndex opened =
     (case opened of Inl err \<Rightarrow> Inl err | Inr s \<Rightarrow> Inr \<lparr>ii_db = s\<rparr>)"

text \<open>\<open>Put(key, nil, nil)\<close> stores the empty value.\<close>

fun InvertedIndex_Add_loop :: "string \<Rightarrow> string list \<Rightarrow> InvertedIndex \<Rightarrow> failure option \<times> InvertedIndex" where
  "InvertedIndex_Add_loop filename [] ii = (None, ii)"
| "InvertedIndex_Add_loop filename (token # tokens) ii =
     InvertedIndex_Add_loop filename tokens
       (ii\<lparr>ii_db := db_put (makeKey token filename) [] (ii_db ii)\<rparr>)"

definition InvertedIndex_Add :: "string \<Rightarrow> string \<Rightarrow> InvertedIndex \<Rightarrow> failure option \<times> InvertedIndex" where
  "InvertedIndex_Add filename contents ii = InvertedIndex_Add_loop filename (tokenize contents) ii"

fun InvertedIndex_Search_loop :: "(string \<times> bytes) list \<Rightarrow> string list \<Rightarrow> failure + string list" where
  "InvertedIndex_Search_loop [] result = Inr result"
| "InvertedIndex_Search_loop (e # es) result =
     (case IndexByte (fst e) nullByte of
        None \<Rightarrow> Inl CorruptIndex
      | Some sep \<Rightarrow> InvertedIndex_Search_loop es (result @ [drop (sep + 1) (fst e)]))"

definition InvertedIndex_Search :: "string \<Rightarrow> InvertedIndex \<Rightarrow> failure + string list" where
  "InvertedIndex_Search query ii =
     InvertedIndex_Search_loop (db_scan (ii_db ii) (query @ [nullByte])) []"

section \<open>Reading the persisted counters\<close>

text \<open>
  The count persisted at a key: 0 when the key is absent, the decoded number when the
  value has four bytes, and nothing when the value is malformed.
\<close>

definition count_at :: "db \<Rightarrow> string \<Rightarrow> u32 option" where
  "count_at s key =
     (case db_get s key of
        None \<Rightarrow> Some 0
      | Some b \<Rightarrow> if length b = 4 then Uint32 b else None)"

definition stored_count :: "db \<Rightarrow> string \<Rightarrow> nat option" where
  "stored_count s key = map_option unat (count_at s key)"

definition FT :: "VectorIndex \<Rightarrow> string \<Rightarrow> string \<Rightarrow> nat option" where
  "FT v d t = stored_count (db v) (ftPrefix @ joinWithNullSep d t)"

definition TF :: "VectorIndex \<Rightarrow> string \<Rightarrow> string \<Rightarrow> nat option" where
  "TF v t d = stored_count (db v) (tfPrefix @ joinWithNullSep t d)"

definition CorpusCount :: "VectorIndex \<Rightarrow> string \<Rightarrow> nat option" where
  "CorpusCount v t = stored_count (db v) (dfPrefix @ t)"

text \<open>
  The number of occurrences of term \<open>t\<close> in the tokenized texts that a sequence of
  \<open>Add\<close> calls passed for document \<open>d\<close>.
\<close>

definition occurrences :: "(string \<times> string) list \<Rightarrow> string \<Rightarrow> string \<Rightarrow> nat" where
  "occurrences adds d t =
     sum_list (map (\<lambda>a. if fst a = d then count_list (tokenize (snd a)) t else 0) adds)"

text \<open>
  The decoded Corpus Term Count persisted for a term, and the state of an index whose
  cache mirrors the persisted counts: every persisted Corpus Term Count has four bytes and
  the cache holds, for every term, the decoded count.
\<close>

definition decoded_df :: "db \<Rightarrow> string \<Rightarrow> u32 option" where
  "decoded_df s t = (case db_get s (dfPrefix @ t) of None \<Rightarrow> None | Some b \<Rightarrow> Uint32 b)"

definition cache_synced :: "VectorIndex \<Rightarrow> bool" where
  "cache_synced v \<longleftrightarrow>
     db_wf (db v) \<and>
     (\<forall>t b. db_get (db v) (dfPrefix @ t) = Some b \<longrightarrow> length b = 4) \<and>
     (\<exists>c. dfCache v = Some c \<and> (\<forall>t. c t = decoded_df (db v) t))"


text \<open>
  The keys that a successful \<open>Add\<close> call increments, one after the other, and those of
  a sequence of calls.
\<close>

definition Add_keys :: "string \<Rightarrow> string list \<Rightarrow> string list" where
  "Add_keys filename tokens =
     concat (map (\<lambda>token. [ftPrefix @ joinWithNullSep filename token, dfPrefix @ token,
                             tfPrefix @ joinWithNullSep token filename]) tokens)"

definition Add_all_keys :: "(string \<times> string) list \<Rightarrow> string list" where
  "Add_all_keys adds = concat (map (\<lambda>a. Add_keys (fst a) (tokenize (snd a))) adds)"


text \<open>Every persisted value is a well-formed count, and no key is persisted with the count 0.\<close>

definition counts_positive :: "db \<Rightarrow> bool" where
  "counts_positive s \<longleftrightarrow> (\<forall>k. count_at s k \<noteq> None \<and> (db_get s k \<noteq> None \<longrightarrow> count_at s k \<noteq> Some 0))"


section \<open>The similarity score in the words of the specification\<close>

text \<open>
  The score of a query and a document as the specification states it, over the state of
  the index: the corpus count of a term is the cached count (0 when the term is not
  cached); the query vector has the query's terms that are cached, each weighted by its
  number of occurrences in the query over its corpus count; the document vector has the
  terms with a nonzero persisted Document-Term Count, each weighted by that count over the
  corpus count; the dot product sums the products of the weights over the shared terms;
  a magnitude is the sum of the squared weights, with no square root.
\<close>

definition spec_corpus_count :: "VectorIndex \<Rightarrow> string \<Rightarrow> nat" where
  "spec_corpus_count v t = (case cache_lookup (dfCache v) t of None \<Rightarrow> 0 | Some n \<Rightarrow> unat n)"

definition spec_query_terms :: "VectorIndex \<Rightarrow> string \<Rightarrow> string set" where
  "spec_query_terms v query = {t \<in> set (tokenize query). cache_lookup (dfCache v) t \<noteq> None}"

definition spec_query_weight :: "VectorIndex \<Rightarrow> string \<Rightarrow> string \<Rightarrow> real" where
  "spec_query_weight v query t =
     real (count_list (tokenize query) t) / real (spec_corpus_count v t)"

definition spec_FT :: "VectorIndex \<Rightarrow> string \<Rightarrow> string \<Rightarrow> nat" where
  "spec_FT v d t = (case FT v d t of None \<Rightarrow> 0 | Some n \<Rightarrow> n)"

definition spec_doc_terms :: "VectorIndex \<Rightarrow> string \<Rightarrow> string set" where
  "spec_doc_terms v d = {t. spec_FT v d t \<noteq> 0}"

definition spec_doc_weight :: "VectorIndex \<Rightarrow> string \<Rightarrow> string \<Rightarrow> real" where
  "spec_doc_weight v d t = real (spec_FT v d t) / real (spec_corpus_count v t)"


definition spec_mag_query :: "VectorIndex \<Rightarrow> string \<Rightarrow> real" where
  "spec_mag_query v query = (\<Sum>t\<in>spec_query_terms v query. (spec_query_weight v query t)\<^sup>2)"

definition spec_mag_doc :: "VectorIndex \<Rightarrow> string \<Rightarrow> real" where
  "spec_mag_doc v d = (\<Sum>t\<in>spec_doc_terms v d. (spec_doc_weight v d t)\<^sup>2)"



section \<open>The indexes of the two test scenarios\<close>


definition scenario_B :: InvertedIndex where
  "scenario_B =
     snd (InvertedIndex_Add ''c'' ''rumic world''
       (snd (InvertedIndex_Add ''b'' ''hello tiger''
         (snd (InvertedIndex_Add ''a'' ''hello world'' \<lparr>ii_db = []\<rparr>)))))"

section \<open>Properties of the store\<close>

lemma db_get_put: "db_get (db_put k v s) k' = (if k' = k then Some v else db_get s k')"
proof -
  have ins: "map_of (insort_key fst (k, v) xs) k' = (if k' = k then Some v else map_of xs k')"
    if "k \<notin> fst ` set xs" for xs :: db
    using that by (induction xs) (auto simp: image_iff)
  have flt: "map_of (filter (\<lambda>e. fst e \<noteq> k) s) k' = map_of s k'" if "k' \<noteq> k"
    using that by (induction s) auto
  have "k \<notin> fst ` set (filter (\<lambda>e. fst e \<noteq> k) s)" by auto
  then show ?thesis
    unfolding db_get_def db_put_def by (simp add: ins flt)
qed

lemma map_fst_insort_key: "map fst (insort_key fst e xs) = insort (fst e) (map fst xs)"
  by (induction xs) auto

lemma db_wf_put: "db_wf s \<Longrightarrow> db_wf (db_put k v s)"
  unfolding db_wf_def db_put_def
  by (auto simp: map_fst_insort_key sorted_insort sorted_filter distinct_insort
      distinct_map_filter set_insort_key)

lemma db_wf_Nil: "db_wf []"
  by (simp add: db_wf_def)

lemma db_has_iff: "db_has s k \<longleftrightarrow> db_get s k \<noteq> None"
  by (simp add: db_has_def)

section \<open>Properties of the counter encoding\<close>

lemma word_of_its_bytes:
  fixes w :: u32
  shows "(ucast (ucast w :: byte) :: u32) OR
         push_bit 8 (ucast (ucast (drop_bit 8 w) :: byte) :: u32) OR
         push_bit 16 (ucast (ucast (drop_bit 16 w) :: byte) :: u32) OR
         push_bit 24 (ucast (ucast (drop_bit 24 w) :: byte) :: u32) = w"
    (is "?l = w")
proof (rule bit_word_eqI)
  fix n :: nat
  assume "n < LENGTH(32)"
  then consider "n < 8" | "8 \<le> n" "n < 16" | "16 \<le> n" "n < 24" | "24 \<le> n" "n < 32"
    by fastforce
  then show "bit ?l n = bit w n"
    by cases (auto simp: bit_simps)
qed

lemma Uint32_PutUint32:
  "length b = 4 \<Longrightarrow> PutUint32 b w = Some b' \<Longrightarrow> Uint32 b' = Some w \<and> length b' = 4"
  unfolding PutUint32_def Uint32_def
  by (clarsimp simp: nth_list_update word_of_its_bytes)

lemma ucast_drop_bit_of_nat:
  "k \<le> 24 \<Longrightarrow> (ucast (drop_bit k (of_nat n :: u32)) :: byte) = of_nat (n div 2 ^ k)"
  apply (rule bit_word_eqI)
  apply (auto simp: bit_simps simp flip: drop_bit_eq_div)
  done

lemma PutUint32_big_endian4:
  "length b = 4 \<Longrightarrow> PutUint32 b (of_nat n) = Some (big_endian4 n)"
proof -
  assume len: "length b = 4"
  then obtain b0 b1 b2 b3 where b: "b = [b0, b1, b2, b3]"
    by (auto simp: length_Suc_conv numeral_eq_Suc)
  have u: "(ucast (of_nat n :: u32) :: byte) = of_nat n"
    using ucast_drop_bit_of_nat [of 0 n] by simp
  show ?thesis
    unfolding PutUint32_def big_endian4_def b by (simp add: ucast_drop_bit_of_nat u)
qed

lemma length_big_endian4: "length (big_endian4 n) = 4"
  by (simp add: big_endian4_def)

lemma Uint32_big_endian4: "Uint32 (big_endian4 n) = Some (of_nat n)"
  using Uint32_PutUint32 [OF length_big_endian4 PutUint32_big_endian4 [OF length_big_endian4]]
  by simp

lemma of_nat_eq_MaxUint32: "n < 2 ^ 32 \<Longrightarrow> (of_nat n :: u32) = MaxUint32 \<longleftrightarrow> n = 2 ^ 32 - 1"
proof -
  assume n: "n < 2 ^ 32"
  have "unat (of_nat n :: u32) = n"
    using n by (simp add: unat_of_nat)
  moreover have "unat MaxUint32 = 2 ^ 32 - 1"
    by (simp add: MaxUint32_def)
  ultimately show ?thesis
    by (metis word_unat_eq_iff)
qed

section \<open>Properties of \<open>increment\<close>\<close>

lemma increment_absent:
  "db_get (db v) k = None \<Longrightarrow>
   increment k v = (None, v\<lparr>db := db_put k (big_endian4 1) (db v)\<rparr>)"
  using PutUint32_big_endian4 [of "replicate 4 0" 1]
  by (simp add: increment_def db_has_iff)

lemma increment_present:
  assumes "db_get (db v) k = Some (big_endian4 n)" and "n < 2 ^ 32 - 1"
  shows "increment k v = (None, v\<lparr>db := db_put k (big_endian4 (Suc n)) (db v)\<rparr>)"
proof -
  have "(of_nat n :: u32) \<noteq> MaxUint32"
    using assms(2) of_nat_eq_MaxUint32 [of n] by simp
  moreover have "PutUint32 (big_endian4 n) (of_nat n + 1) = Some (big_endian4 (Suc n))"
    using PutUint32_big_endian4 [OF length_big_endian4, of n "Suc n"] by (simp add: add.commute)
  ultimately show ?thesis
    using assms(1)
    by (simp add: increment_def db_has_iff length_big_endian4 Uint32_big_endian4
        store_incremented_def)
qed

lemma increment_overflow:
  assumes "db_get (db v) k = Some (big_endian4 (2 ^ 32 - 1))"
  shows "increment k v = (Some Overflow, v)"
proof -
  have "(of_nat (2 ^ 32 - 1) :: u32) = MaxUint32"
    using of_nat_eq_MaxUint32 [of "2 ^ 32 - 1"] by simp
  then show ?thesis
    using assms
    by (simp add: increment_def db_has_iff length_big_endian4 Uint32_big_endian4
        store_incremented_def)
qed

lemma increment_times_present:
  "db_get (db v) k = Some (big_endian4 m) \<Longrightarrow> m + n \<le> 2 ^ 32 - 1 \<Longrightarrow>
   \<exists>v'. increment_times n k v = (None, v') \<and> db_get (db v') k = Some (big_endian4 (m + n))"
proof (induction n arbitrary: v m)
  case 0
  then show ?case by simp
next
  case (Suc n)
  let ?v1 = "v\<lparr>db := db_put k (big_endian4 (Suc m)) (db v)\<rparr>"
  have step: "increment k v = (None, ?v1)"
    using Suc.prems by (intro increment_present) auto
  have "db_get (db ?v1) k = Some (big_endian4 (Suc m))"
    by (simp add: db_get_put)
  moreover have "Suc m + n \<le> 2 ^ 32 - 1"
    using Suc.prems by simp
  ultimately obtain v' where
    "increment_times n k ?v1 = (None, v')" "db_get (db v') k = Some (big_endian4 (Suc m + n))"
    using Suc.IH by blast
  then show ?case
    using step by simp
qed

lemma increment_times_absent:
  assumes "db_get (db v) k = None" and "1 \<le> n" and "n \<le> 2 ^ 32 - 1"
  shows "\<exists>v'. increment_times n k v = (None, v') \<and> db_get (db v') k = Some (big_endian4 n)"
proof -
  obtain n' where n: "n = Suc n'"
    using assms(2) by (cases n) auto
  let ?v1 = "v\<lparr>db := db_put k (big_endian4 1) (db v)\<rparr>"
  have "db_get (db ?v1) k = Some (big_endian4 1)"
    by (simp add: db_get_put)
  moreover have "1 + n' \<le> (2 :: nat) ^ 32 - 1"
    using assms(3) n by simp
  ultimately obtain v' where
    "increment_times n' k ?v1 = (None, v')" "db_get (db v') k = Some (big_endian4 (1 + n'))"
    using increment_times_present [of ?v1 k 1 n'] by blast
  then show ?thesis
    using increment_absent [OF assms(1)] n by simp
qed

lemma big_endian4_max: "big_endian4 (2 ^ 32 - 1) = [255, 255, 255, 255]"
  by (simp add: big_endian4_def)

section \<open>Counting with \<open>increment\<close>\<close>

text \<open>
  C6: for every key, \<open>n\<close> calls of \<open>increment\<close> (\<open>1 \<le> n \<le> 2^32 - 1\<close>) on a key that is
  absent all succeed and leave \<open>n\<close> stored at the key as four bytes, most significant
  first; a call of \<open>increment\<close> on a key whose stored value is \<open>2^32 - 1\<close> (four bytes
  \<open>0xFF\<close>) returns the Overflow error and leaves the index as it was.
\<close>

theorem C6_increment_counts:
  "(db_get (db v) k = None \<and> 1 \<le> n \<and> n \<le> 2 ^ 32 - 1 \<longrightarrow>
      (\<exists>v'. increment_times n k v = (None, v') \<and>
            db_get (db v') k =
              Some [of_nat (n div 2 ^ 24), of_nat (n div 2 ^ 16), of_nat (n div 2 ^ 8), of_nat n])) \<and>
   (db_get (db v) k = Some [255, 255, 255, 255] \<longrightarrow> increment k v = (Some Overflow, v))"
  using increment_times_absent [of v k n] increment_overflow [of v k]
  by (simp add: big_endian4_max) (simp add: big_endian4_def)

theorem C6_increment_counts_witness:
  "db_get (db \<lparr>db = [], dfCache = Some Map.empty\<rparr>) [CHR 0x01, CHR 0x02, CHR 0x03, CHR 0x04] = None \<and>
   (\<exists>v'. increment_times 2 [CHR 0x01, CHR 0x02, CHR 0x03, CHR 0x04] \<lparr>db = [], dfCache = Some Map.empty\<rparr>
            = (None, v') \<and>
          db_get (db v') [CHR 0x01, CHR 0x02, CHR 0x03, CHR 0x04] = Some [0, 0, 0, 2]) \<and>
   db_get (db \<lparr>db = [(''k'', [255, 255, 255, 255])], dfCache = Some Map.empty\<rparr>) ''k''
     = Some [255, 255, 255, 255] \<and>
   increment ''k'' \<lparr>db = [(''k'', [255, 255, 255, 255])], dfCache = Some Map.empty\<rparr>
     = (Some Overflow, \<lparr>db = [(''k'', [255, 255, 255, 255])], dfCache = Some Map.empty\<rparr>)"
  using C6_increment_counts [of "\<lparr>db = [], dfCache = Some Map.empty\<rparr>"
      "[CHR 0x01, CHR 0x02, CHR 0x03, CHR 0x04]" 2]
    C6_increment_counts [of "\<lparr>db = [(''k'', [255, 255, 255, 255])], dfCache = Some Map.empty\<rparr>" "''k''" 1]
  by (simp add: db_get_def)




section \<open>The cache mirrors the persisted Corpus Term Counts\<close>

lemma PutUint32_Some: "length b = 4 \<Longrightarrow> \<exists>b'. PutUint32 b w = Some b'"
  by (simp add: PutUint32_def)

lemma Uint32_Some: "length b = 4 \<Longrightarrow> \<exists>n. Uint32 b = Some n"
  by (simp add: Uint32_def)

lemma OpenVectorIndex_empty: "OpenVectorIndex (Inr []) = Inr \<lparr>db = [], dfCache = Some Map.empty\<rparr>"
  by (simp add: OpenVectorIndex_def loadDFCache_def iterate_def db_scan_def)

lemma increment_success:
  assumes "increment k v = (None, v')"
  shows "\<exists>n b'. count_at (db v) k = Some n \<and> n \<noteq> MaxUint32 \<and> length b' = 4 \<and>
           Uint32 b' = Some (n + 1) \<and> v' = v\<lparr>db := db_put k b' (db v)\<rparr>"
proof (cases "db_get (db v) k")
  case None
  obtain b' where b': "PutUint32 (replicate 4 0) 1 = Some b'"
    using PutUint32_Some [of "replicate 4 0" 1] by auto
  then have "Uint32 b' = Some 1" "length b' = 4"
    using Uint32_PutUint32 [of "replicate 4 0" 1 b'] by auto
  moreover have "v' = v\<lparr>db := db_put k b' (db v)\<rparr>"
    using assms None b' by (simp add: increment_def db_has_iff)
  ultimately show ?thesis
    using None by (auto simp: count_at_def MaxUint32_def)
next
  case (Some b)
  have len: "length b = 4"
    using assms Some
    by (auto simp: increment_def db_has_iff store_incremented_def PutUint32_def split: if_splits)
  then obtain n where n: "Uint32 b = Some n"
    using Uint32_Some by blast
  have si: "store_incremented k b n v = (None, v')"
    using assms Some len n by (simp add: increment_def db_has_iff)
  then have nmax: "n \<noteq> MaxUint32"
    by (auto simp: store_incremented_def)
  obtain b' where b': "PutUint32 b (n + 1) = Some b'"
    using PutUint32_Some [OF len] by blast
  then have "Uint32 b' = Some (n + 1)" "length b' = 4"
    using Uint32_PutUint32 [OF len b'] by auto
  moreover have "v' = v\<lparr>db := db_put k b' (db v)\<rparr>"
    using si nmax b' by (simp add: store_incremented_def)
  ultimately show ?thesis
    using Some len n nmax by (auto simp: count_at_def)
qed




lemma increment_all_Cons_success:
  "increment_all (k # ks) v = (None, v') \<longleftrightarrow>
   (\<exists>v1. increment k v = (None, v1) \<and> increment_all ks v1 = (None, v'))"
  by (auto split: prod.splits option.splits)

lemma prefixes_differ:
  "ftPrefix @ x \<noteq> dfPrefix @ y" "tfPrefix @ x \<noteq> dfPrefix @ y" "ftPrefix @ x \<noteq> tfPrefix @ y"
  by (simp_all add: ftPrefix_def dfPrefix_def tfPrefix_def)


lemma Add_loop_Cons_success:
  assumes "Add_loop f (tok # toks) v = (None, v')"
  shows "\<exists>v1 c. increment_all [ftPrefix @ joinWithNullSep f tok, dfPrefix @ tok,
                    tfPrefix @ joinWithNullSep tok f] v = (None, v1) \<and>
           dfCache v1 = Some c \<and>
           Add_loop f toks (v1\<lparr>dfCache := Some (c(tok \<mapsto> (case c tok of None \<Rightarrow> 0 | Some n \<Rightarrow> n) + 1))\<rparr>)
             = (None, v')"
proof -
  let ?ks = "[ftPrefix @ joinWithNullSep f tok, dfPrefix @ tok, tfPrefix @ joinWithNullSep tok f]"
  obtain e v1 where r: "increment_all ?ks v = (e, v1)"
    by (cases "increment_all ?ks v")
  have e: "e = None"
    using assms r by (cases e) (simp_all add: Let_def del: increment_all.simps)
  obtain c where c: "dfCache v1 = Some c"
    using assms r e by (cases "dfCache v1") (simp_all add: Let_def del: increment_all.simps)
  show ?thesis
    using assms r e c by (simp add: Let_def del: increment_all.simps)
qed

lemma token_step_db:
  assumes "increment_all [ftPrefix @ x, dfPrefix @ tok, tfPrefix @ y] v = (None, v1)"
  shows "dfCache v1 = dfCache v \<and> (db_wf (db v) \<longrightarrow> db_wf (db v1)) \<and>
         (\<exists>n b2. count_at (db v) (dfPrefix @ tok) = Some n \<and> length b2 = 4 \<and>
                  Uint32 b2 = Some (n + 1) \<and>
                  (\<forall>t. db_get (db v1) (dfPrefix @ t)
                        = (if t = tok then Some b2 else db_get (db v) (dfPrefix @ t))))"
proof -
  from assms obtain va vb where
    a: "increment (ftPrefix @ x) v = (None, va)" and
    b: "increment (dfPrefix @ tok) va = (None, vb)" and
    c: "increment (tfPrefix @ y) vb = (None, v1)"
    by (auto split: prod.splits option.splits)
  from increment_success [OF a] obtain b1 where
    va: "va = v\<lparr>db := db_put (ftPrefix @ x) b1 (db v)\<rparr>" by blast
  from increment_success [OF b] obtain n b2 where
    n: "count_at (db va) (dfPrefix @ tok) = Some n" and b2: "length b2 = 4" "Uint32 b2 = Some (n + 1)" and
    vb: "vb = va\<lparr>db := db_put (dfPrefix @ tok) b2 (db va)\<rparr>" by blast
  from increment_success [OF c] obtain b3 where
    v1: "v1 = vb\<lparr>db := db_put (tfPrefix @ y) b3 (db vb)\<rparr>" by blast
  have "count_at (db v) (dfPrefix @ tok) = Some n"
    using n unfolding va count_at_def by (simp add: db_get_put prefixes_differ [symmetric])
  moreover have "db_get (db v1) (dfPrefix @ t)
                        = (if t = tok then Some b2 else db_get (db v) (dfPrefix @ t))" for t
    unfolding v1 vb va by (simp add: db_get_put prefixes_differ [symmetric])
  moreover have "dfCache v1 = dfCache v"
    unfolding v1 vb va by simp
  moreover have "db_wf (db v) \<longrightarrow> db_wf (db v1)"
    unfolding v1 vb va by (simp add: db_wf_put)
  ultimately show ?thesis
    using b2 by blast
qed

lemma Add_loop_synced:
  "Add_loop f toks v = (None, v') \<Longrightarrow> cache_synced v \<Longrightarrow> cache_synced v'"
proof (induction toks arbitrary: v)
  case Nil
  then show ?case by simp
next
  case (Cons tok toks)
  from Add_loop_Cons_success [OF Cons.prems(1)] obtain v1 c where
    inc: "increment_all [ftPrefix @ joinWithNullSep f tok, dfPrefix @ tok,
                    tfPrefix @ joinWithNullSep tok f] v = (None, v1)" and
    c: "dfCache v1 = Some c" and
    rest: "Add_loop f toks (v1\<lparr>dfCache := Some (c(tok \<mapsto> (case c tok of None \<Rightarrow> 0 | Some n \<Rightarrow> n) + 1))\<rparr>)
             = (None, v')"
    by blast
  from token_step_db [OF inc] obtain n b2 where
    cache: "dfCache v1 = dfCache v" and wf: "db_wf (db v) \<longrightarrow> db_wf (db v1)" and
    n: "count_at (db v) (dfPrefix @ tok) = Some n" and b2: "length b2 = 4" "Uint32 b2 = Some (n + 1)" and
    get: "\<And>t. db_get (db v1) (dfPrefix @ t)
                        = (if t = tok then Some b2 else db_get (db v) (dfPrefix @ t))"
    by blast
  have sync: "\<forall>t. c t = decoded_df (db v) t" and len: "\<forall>t b. db_get (db v) (dfPrefix @ t) = Some b \<longrightarrow> length b = 4"
    and wfv: "db_wf (db v)"
    using Cons.prems(2) c cache by (auto simp: cache_synced_def)
  have old: "(case c tok of None \<Rightarrow> 0 | Some m \<Rightarrow> m) = n"
    using n sync len by (auto simp: decoded_df_def count_at_def split: option.splits if_splits)
  let ?v2 = "v1\<lparr>dfCache := Some (c(tok \<mapsto> (case c tok of None \<Rightarrow> 0 | Some n \<Rightarrow> n) + 1))\<rparr>"
  have 1: "db_wf (db ?v2)"
    using wf wfv by simp
  have 2: "\<forall>t b. db_get (db ?v2) (dfPrefix @ t) = Some b \<longrightarrow> length b = 4"
    using len b2(1) by (simp add: get)
  have 3: "(c(tok \<mapsto> (case c tok of None \<Rightarrow> 0 | Some n \<Rightarrow> n) + 1)) t = decoded_df (db ?v2) t" for t
    using sync b2(2) unfolding old by (simp add: get decoded_df_def)
  have "cache_synced ?v2"
    unfolding cache_synced_def using 1 2 3 by simp
  then show ?case
    by (rule Cons.IH [OF rest])
qed

lemma Add_all_synced:
  "Add_all adds v = (None, v') \<Longrightarrow> cache_synced v \<Longrightarrow> cache_synced v'"
proof (induction adds arbitrary: v)
  case Nil
  then show ?case by simp
next
  case (Cons a adds)
  from Cons.prems(1) obtain v1 where
    a: "Add_loop (fst a) (tokenize (snd a)) v = (None, v1)" and r: "Add_all adds v1 = (None, v')"
    by (auto simp: VectorIndex_Add_def split: prod.splits option.splits)
  have "cache_synced v1"
    using Add_loop_synced [OF a Cons.prems(2)] .
  then show ?case
    by (rule Cons.IH [OF r])
qed






section \<open>The persisted counts after a sequence of \<open>Add\<close> calls\<close>

lemma unat_succ: "n \<noteq> MaxUint32 \<Longrightarrow> unat (n + 1) = Suc (unat n)"
proof -
  assume n: "n \<noteq> MaxUint32"
  have m1: "(0xFFFFFFFF :: u32) = - 1" by simp
  have "n \<noteq> - 1" using n unfolding MaxUint32_def m1 .
  then have "1 + n \<noteq> 0"
    by (metis add.commute add_eq_0_iff2)
  then show ?thesis
    using unatSuc [of n] by (simp add: add.commute)
qed

lemma increment_count:
  assumes "increment k v = (None, v')" and "stored_count (db v) k' = Some m"
  shows "stored_count (db v') k' = Some (if k' = k then Suc m else m)"
proof -
  from increment_success [OF assms(1)] obtain n b' where
    n: "count_at (db v) k = Some n" "n \<noteq> MaxUint32" and b': "length b' = 4" "Uint32 b' = Some (n + 1)" and
    v': "v' = v\<lparr>db := db_put k b' (db v)\<rparr>" by blast
  show ?thesis
  proof (cases "k' = k")
    case True
    then have "m = unat n"
      using assms(2) n(1) by (simp add: stored_count_def)
    moreover have "count_at (db v') k = Some (n + 1)"
      unfolding v' count_at_def using b' by (simp add: db_get_put)
    ultimately show ?thesis
      using True unat_succ [OF n(2)] by (simp add: stored_count_def)
  next
    case False
    then show ?thesis
      using assms(2) unfolding v' stored_count_def count_at_def by (simp add: db_get_put)
  qed
qed

lemma increment_all_count:
  "increment_all ks v = (None, v') \<Longrightarrow> stored_count (db v) k' = Some m \<Longrightarrow>
   stored_count (db v') k' = Some (m + count_list ks k')"
proof (induction ks arbitrary: v m)
  case Nil
  then show ?case by simp
next
  case (Cons k ks)
  from Cons.prems(1) obtain v1 where
    a: "increment k v = (None, v1)" and r: "increment_all ks v1 = (None, v')"
    by (auto split: prod.splits option.splits)
  show ?case
    using Cons.IH [OF r increment_count [OF a Cons.prems(2)]] by simp
qed

lemma Add_loop_count:
  "Add_loop f toks v = (None, v') \<Longrightarrow> stored_count (db v) k = Some m \<Longrightarrow>
   stored_count (db v') k = Some (m + count_list (Add_keys f toks) k)"
proof (induction toks arbitrary: v m)
  case Nil
  then show ?case by (simp add: Add_keys_def)
next
  case (Cons tok toks)
  let ?ks = "[ftPrefix @ joinWithNullSep f tok, dfPrefix @ tok, tfPrefix @ joinWithNullSep tok f]"
  from Add_loop_Cons_success [OF Cons.prems(1)] obtain v1 c where
    inc: "increment_all ?ks v = (None, v1)" and
    rest: "Add_loop f toks (v1\<lparr>dfCache := Some (c(tok \<mapsto> (case c tok of None \<Rightarrow> 0 | Some n \<Rightarrow> n) + 1))\<rparr>)
             = (None, v')"
    by blast
  have "stored_count (db v1) k = Some (m + count_list ?ks k)"
    by (rule increment_all_count [OF inc Cons.prems(2)])
  then have "stored_count (db (v1\<lparr>dfCache := Some (c(tok \<mapsto> (case c tok of None \<Rightarrow> 0 | Some n \<Rightarrow> n) + 1))\<rparr>)) k
      = Some (m + count_list ?ks k)"
    by simp
  from Cons.IH [OF rest this] have
    "stored_count (db v') k = Some (m + count_list ?ks k + count_list (Add_keys f toks) k)" .
  moreover have "Add_keys f (tok # toks) = ?ks @ Add_keys f toks"
    by (simp add: Add_keys_def)
  ultimately show ?case
    by (simp only: count_list_append add.assoc)
qed

lemma Add_all_count:
  "Add_all adds v = (None, v') \<Longrightarrow> stored_count (db v) k = Some m \<Longrightarrow>
   stored_count (db v') k = Some (m + count_list (Add_all_keys adds) k)"
proof (induction adds arbitrary: v m)
  case Nil
  then show ?case by (simp add: Add_all_keys_def)
next
  case (Cons a adds)
  from Cons.prems(1) obtain v1 where
    a: "Add_loop (fst a) (tokenize (snd a)) v = (None, v1)" and r: "Add_all adds v1 = (None, v')"
    by (auto simp: VectorIndex_Add_def split: prod.splits option.splits)
  from Cons.IH [OF r Add_loop_count [OF a Cons.prems(2)]]
  have "stored_count (db v') k =
        Some (m + count_list (Add_keys (fst a) (tokenize (snd a))) k + count_list (Add_all_keys adds) k)" .
  moreover have "Add_all_keys (a # adds) = Add_keys (fst a) (tokenize (snd a)) @ Add_all_keys adds"
    by (simp add: Add_all_keys_def)
  ultimately show ?case
    by (simp only: count_list_append add.assoc)
qed

lemma stored_count_empty: "stored_count [] k = Some 0"
  by (simp add: stored_count_def count_at_def db_get_def)

lemma takeWhile_before_sep: "z \<notin> set x \<Longrightarrow> takeWhile (\<lambda>c. c \<noteq> z) (x @ [z] @ y) = x"
  by (induction x) auto

lemma join_inject_left:
  assumes "x @ [z] @ y = x' @ [z] @ y'" and "z \<notin> set x" and "z \<notin> set x'"
  shows "x = x' \<and> y = y'"
proof -
  have "takeWhile (\<lambda>c. c \<noteq> z) (x @ [z] @ y) = x"
    by (rule takeWhile_before_sep) fact
  moreover have "takeWhile (\<lambda>c. c \<noteq> z) (x' @ [z] @ y') = x'"
    by (rule takeWhile_before_sep) fact
  ultimately have "x = x'"
    using assms(1) by metis
  then show ?thesis
    using assms(1) by simp
qed

lemma join_inject_right:
  assumes "x @ [z] @ y = x' @ [z] @ y'" and "z \<notin> set y" and "z \<notin> set y'"
  shows "x = x' \<and> y = y'"
proof -
  have "rev y @ [z] @ rev x = rev y' @ [z] @ rev x'"
    using arg_cong [OF assms(1), of rev] by simp
  then have "rev y = rev y' \<and> rev x = rev x'"
    by (rule join_inject_left) (use assms(2,3) in auto)
  then show ?thesis by simp
qed

lemma count_Add_keys_ft:
  assumes "nullByte \<notin> set f" and "nullByte \<notin> set d"
  shows "count_list (Add_keys f toks) (ftPrefix @ joinWithNullSep d t)
         = (if f = d then count_list toks t else 0)"
proof (induction toks)
  case Nil
  then show ?case by (simp add: Add_keys_def)
next
  case (Cons tok toks)
  have "joinWithNullSep f tok = joinWithNullSep d t \<longleftrightarrow> f = d \<and> tok = t"
    unfolding joinWithNullSep_def using join_inject_left [OF _ assms] by auto
  moreover have "Add_keys f (tok # toks) =
      [ftPrefix @ joinWithNullSep f tok, dfPrefix @ tok, tfPrefix @ joinWithNullSep tok f] @ Add_keys f toks"
    by (simp add: Add_keys_def)
  ultimately show ?case
    using Cons.IH prefixes_differ [of "joinWithNullSep d t"]
    by (auto simp: prefixes_differ ftPrefix_def tfPrefix_def dfPrefix_def)
qed

lemma count_Add_keys_tf:
  assumes "nullByte \<notin> set f" and "nullByte \<notin> set d"
  shows "count_list (Add_keys f toks) (tfPrefix @ joinWithNullSep t d)
         = (if f = d then count_list toks t else 0)"
proof (induction toks)
  case Nil
  then show ?case by (simp add: Add_keys_def)
next
  case (Cons tok toks)
  have "joinWithNullSep tok f = joinWithNullSep t d \<longleftrightarrow> f = d \<and> tok = t"
    unfolding joinWithNullSep_def using join_inject_right [OF _ assms] by auto
  moreover have "Add_keys f (tok # toks) =
      [ftPrefix @ joinWithNullSep f tok, dfPrefix @ tok, tfPrefix @ joinWithNullSep tok f] @ Add_keys f toks"
    by (simp add: Add_keys_def)
  ultimately show ?case
    using Cons.IH
    by (auto simp: ftPrefix_def tfPrefix_def dfPrefix_def)
qed

lemma count_Add_keys_df:
  "count_list (Add_keys f toks) (dfPrefix @ t) = count_list toks t"
  by (induction toks) (auto simp: Add_keys_def ftPrefix_def tfPrefix_def dfPrefix_def)

lemma count_Add_all_keys_ft:
  assumes "\<forall>a\<in>set adds. nullByte \<notin> set (fst a)" and "nullByte \<notin> set d"
  shows "count_list (Add_all_keys adds) (ftPrefix @ joinWithNullSep d t) = occurrences adds d t"
  using assms(1)
  by (induction adds)
    (simp_all add: Add_all_keys_def occurrences_def count_Add_keys_ft [OF _ assms(2)])

lemma count_Add_all_keys_tf:
  assumes "\<forall>a\<in>set adds. nullByte \<notin> set (fst a)" and "nullByte \<notin> set d"
  shows "count_list (Add_all_keys adds) (tfPrefix @ joinWithNullSep t d) = occurrences adds d t"
  using assms(1)
  by (induction adds)
    (simp_all add: Add_all_keys_def occurrences_def count_Add_keys_tf [OF _ assms(2)])

lemma count_Add_all_keys_df:
  "count_list (Add_all_keys adds) (dfPrefix @ t)
   = sum_list (map (\<lambda>a. count_list (tokenize (snd a)) t) adds)"
  by (induction adds) (simp_all add: Add_all_keys_def count_Add_keys_df)

lemma occurrences_not_added: "d \<notin> fst ` set adds \<Longrightarrow> occurrences adds d t = 0"
  by (induction adds) (auto simp: occurrences_def)

lemma sum_occurrences:
  "(\<Sum>d\<in>fst ` set adds. occurrences adds d t)
   = sum_list (map (\<lambda>a. count_list (tokenize (snd a)) t) adds)"
proof (induction adds)
  case Nil
  then show ?case by (simp add: occurrences_def)
next
  case (Cons a adds)
  let ?D = "fst ` set adds"
  let ?g = "count_list (tokenize (snd a)) t"
  have occ: "occurrences (a # adds) d t = (if fst a = d then ?g else 0) + occurrences adds d t" for d
    by (simp add: occurrences_def)
  have "(\<Sum>d\<in>insert (fst a) ?D. occurrences (a # adds) d t)
      = (\<Sum>d\<in>insert (fst a) ?D. (if fst a = d then ?g else 0)) + (\<Sum>d\<in>insert (fst a) ?D. occurrences adds d t)"
    by (simp add: occ sum.distrib)
  also have "(\<Sum>d\<in>insert (fst a) ?D. (if fst a = d then ?g else 0)) = ?g"
    by (simp add: sum.delta')
  also have "(\<Sum>d\<in>insert (fst a) ?D. occurrences adds d t) = (\<Sum>d\<in>?D. occurrences adds d t)"
    by (cases "fst a \<in> ?D") (simp_all add: insert_absorb occurrences_not_added)
  finally show ?case
    using Cons.IH by simp
qed

lemma counts_after_adds:
  assumes "OpenVectorIndex (Inr []) = Inr v0" and "Add_all adds v0 = (None, v)"
  shows "stored_count (db v) k = Some (count_list (Add_all_keys adds) k)"
proof -
  have "db v0 = []"
    using assms(1) by (auto simp: OpenVectorIndex_def)
  then have "stored_count (db v0) k = Some 0"
    by (simp add: stored_count_empty)
  from Add_all_count [OF assms(2) this] show ?thesis by simp
qed

text \<open>
  C3: for every document \<open>d\<close> and term \<open>t\<close>, after any sequence of successful \<open>Add\<close>
  calls on a freshly opened empty index, the persisted Document-Term Count \<open>FT(d,t)\<close>
  equals the persisted Term-Document Count \<open>TF(t,d)\<close>, and both equal the number of
  occurrences of \<open>t\<close> in the tokenized texts passed to \<open>Add\<close> for \<open>d\<close>. Documents are
  named as the data model requires: no name contains the separator byte.
\<close>

theorem C3_FT_TF_occurrences:
  assumes "OpenVectorIndex (Inr []) = Inr v0" and "Add_all adds v0 = (None, v)"
    and "\<forall>a\<in>set adds. nullByte \<notin> set (fst a)" and "nullByte \<notin> set d"
  shows "FT v d t = Some (occurrences adds d t) \<and> TF v t d = Some (occurrences adds d t)"
  unfolding FT_def TF_def counts_after_adds [OF assms(1,2)]
  by (simp add: count_Add_all_keys_ft [OF assms(3,4)] count_Add_all_keys_tf [OF assms(3,4)])

theorem C3_FT_TF_occurrences_witness:
  "OpenVectorIndex (Inr []) = Inr \<lparr>db = [], dfCache = Some Map.empty\<rparr> \<and>
   fst (Add_all [(''file.txt'', ''foo foo bar baz''), (''file2.txt'', ''bar bar foo foo bat'')]
          \<lparr>db = [], dfCache = Some Map.empty\<rparr>) = None \<and>
   nullByte \<notin> set ''file.txt'' \<and> nullByte \<notin> set ''file2.txt'' \<and>
   occurrences [(''file.txt'', ''foo foo bar baz''), (''file2.txt'', ''bar bar foo foo bat'')]
     ''file.txt'' ''foo'' = 2 \<and>
   FT (snd (Add_all [(''file.txt'', ''foo foo bar baz''), (''file2.txt'', ''bar bar foo foo bat'')]
              \<lparr>db = [], dfCache = Some Map.empty\<rparr>)) ''file.txt'' ''foo'' = Some 2 \<and>
   TF (snd (Add_all [(''file.txt'', ''foo foo bar baz''), (''file2.txt'', ''bar bar foo foo bat'')]
              \<lparr>db = [], dfCache = Some Map.empty\<rparr>)) ''foo'' ''file.txt'' = Some 2"
proof -
  let ?adds = "[(''file.txt'', ''foo foo bar baz''), (''file2.txt'', ''bar bar foo foo bat'')]"
  let ?v0 = "\<lparr>db = [], dfCache = Some Map.empty\<rparr>"
  have ok: "fst (Add_all ?adds ?v0) = None"
    by code_simp
  then have run: "Add_all ?adds ?v0 = (None, snd (Add_all ?adds ?v0))"
    by (simp add: prod_eq_iff)
  have names: "\<forall>a\<in>set ?adds. nullByte \<notin> set (fst a)"
    by (simp add: nullByte_def)
  have d: "nullByte \<notin> set ''file.txt''"
    by (simp add: nullByte_def)
  have occ: "occurrences ?adds ''file.txt'' ''foo'' = 2"
    by code_simp
  show ?thesis
    using C3_FT_TF_occurrences [OF OpenVectorIndex_empty run names d, of "''foo''"]
      OpenVectorIndex_empty ok names d occ
    by simp
qed


text \<open>
  C4: for every term \<open>t\<close>, after any sequence of successful \<open>Add\<close> calls on a freshly
  opened empty index, the persisted Corpus Term Count of \<open>t\<close> equals the sum, over the
  documents \<open>d\<close> that were added, of the persisted \<open>FT(d,t)\<close>. Documents are named as
  the data model requires: no name contains the separator byte.
\<close>

theorem C4_corpus_count_sum:
  assumes "OpenVectorIndex (Inr []) = Inr v0" and "Add_all adds v0 = (None, v)"
    and "\<forall>a\<in>set adds. nullByte \<notin> set (fst a)"
  shows "\<exists>ft. (\<forall>d\<in>fst ` set adds. FT v d t = Some (ft d)) \<and>
              CorpusCount v t = Some (\<Sum>d\<in>fst ` set adds. ft d)"
proof (intro exI conjI ballI)
  fix d assume "d \<in> fst ` set adds"
  then have "nullByte \<notin> set d"
    using assms(3) by auto
  then show "FT v d t = Some (occurrences adds d t)"
    unfolding FT_def counts_after_adds [OF assms(1,2)]
    by (simp add: count_Add_all_keys_ft [OF assms(3)])
next
  show "CorpusCount v t = Some (\<Sum>d\<in>fst ` set adds. occurrences adds d t)"
    unfolding CorpusCount_def counts_after_adds [OF assms(1,2)]
    by (simp add: count_Add_all_keys_df sum_occurrences)
qed

theorem C4_corpus_count_sum_witness:
  "OpenVectorIndex (Inr []) = Inr \<lparr>db = [], dfCache = Some Map.empty\<rparr> \<and>
   fst (Add_all [(''file.txt'', ''foo foo bar baz''), (''file2.txt'', ''bar bar foo foo bat'')]
          \<lparr>db = [], dfCache = Some Map.empty\<rparr>) = None \<and>
   nullByte \<notin> set ''file.txt'' \<and> nullByte \<notin> set ''file2.txt'' \<and>
   (\<exists>ft. (\<forall>d\<in>fst ` set [(''file.txt'', ''foo foo bar baz''), (''file2.txt'', ''bar bar foo foo bat'')].
            FT (snd (Add_all [(''file.txt'', ''foo foo bar baz''), (''file2.txt'', ''bar bar foo foo bat'')]
                  \<lparr>db = [], dfCache = Some Map.empty\<rparr>)) d ''bar'' = Some (ft d)) \<and>
         CorpusCount (snd (Add_all [(''file.txt'', ''foo foo bar baz''), (''file2.txt'', ''bar bar foo foo bat'')]
                  \<lparr>db = [], dfCache = Some Map.empty\<rparr>)) ''bar''
           = Some (\<Sum>d\<in>fst ` set [(''file.txt'', ''foo foo bar baz''), (''file2.txt'', ''bar bar foo foo bat'')]. ft d)) \<and>
   CorpusCount (snd (Add_all [(''file.txt'', ''foo foo bar baz''), (''file2.txt'', ''bar bar foo foo bat'')]
                  \<lparr>db = [], dfCache = Some Map.empty\<rparr>)) ''bar'' = Some 3"
proof -
  let ?adds = "[(''file.txt'', ''foo foo bar baz''), (''file2.txt'', ''bar bar foo foo bat'')]"
  let ?v0 = "\<lparr>db = [], dfCache = Some Map.empty\<rparr>"
  have ok: "fst (Add_all ?adds ?v0) = None"
    by code_simp
  then have run: "Add_all ?adds ?v0 = (None, snd (Add_all ?adds ?v0))"
    by (simp add: prod_eq_iff)
  have names: "\<forall>a\<in>set ?adds. nullByte \<notin> set (fst a)"
    by (simp add: nullByte_def)
  have cc: "CorpusCount (snd (Add_all ?adds ?v0)) ''bar'' = Some 3"
    by code_simp
  show ?thesis
    using C4_corpus_count_sum [OF OpenVectorIndex_empty run names, of "''bar''"]
      OpenVectorIndex_empty ok names cc
    by simp
qed


section \<open>Adding twice to the presence-only index\<close>

text \<open>Two well-formed stores with the same content are the same list.\<close>

lemma assoc_list_from_keys:
  assumes "distinct (map fst s)"
  shows "map (\<lambda>k. (k, the (map_of s k))) (map fst s) = s"
proof -
  have "map_of s (fst e) = Some (snd e)" if "e \<in> set s" for e
    using that map_of_is_SomeI [OF assms, of "fst e" "snd e"] by simp
  then have "map (\<lambda>e. (fst e, the (map_of s (fst e)))) s = s"
    by (intro map_idI) simp
  then show ?thesis
    by (simp add: comp_def)
qed

lemma db_wf_eqI:
  assumes "db_wf s" and "db_wf s'" and "\<And>k. db_get s k = db_get s' k"
  shows "s = s'"
proof -
  have m: "map_of s = map_of s'"
    using assms(3) by (auto simp: db_get_def)
  then have "set (map fst s) = set (map fst s')"
    by (metis dom_map_of_conv_image_fst set_map)
  then have keys: "map fst s = map fst s'"
    using assms(1,2) by (auto simp: db_wf_def intro: sorted_distinct_set_unique)
  have "s = map (\<lambda>k. (k, the (map_of s k))) (map fst s)"
    using assms(1) assoc_list_from_keys [of s] by (simp only: db_wf_def)
  also have "\<dots> = map (\<lambda>k. (k, the (map_of s' k))) (map fst s')"
    by (simp only: m keys)
  also have "\<dots> = s'"
    using assms(2) assoc_list_from_keys [of s'] by (simp only: db_wf_def)
  finally show ?thesis .
qed

lemma InvertedIndex_Add_loop_result:
  "\<exists>s1. InvertedIndex_Add_loop f toks ii = (None, \<lparr>ii_db = s1\<rparr>) \<and>
        (db_wf (ii_db ii) \<longrightarrow> db_wf s1) \<and>
        (\<forall>k. db_get s1 k = (if k \<in> (\<lambda>t. makeKey t f) ` set toks then Some [] else db_get (ii_db ii) k))"
proof (induction toks arbitrary: ii)
  case Nil
  then show ?case by (cases ii) simp
next
  case (Cons tok toks)
  let ?ii1 = "ii\<lparr>ii_db := db_put (makeKey tok f) [] (ii_db ii)\<rparr>"
  from Cons [of ?ii1] obtain s1 where
    r: "InvertedIndex_Add_loop f toks ?ii1 = (None, \<lparr>ii_db = s1\<rparr>)" and
    wf: "db_wf (ii_db ?ii1) \<longrightarrow> db_wf s1" and
    g: "\<And>k. db_get s1 k = (if k \<in> (\<lambda>t. makeKey t f) ` set toks then Some [] else db_get (ii_db ?ii1) k)"
    by blast
  have "InvertedIndex_Add_loop f (tok # toks) ii = (None, \<lparr>ii_db = s1\<rparr>)"
    using r by simp
  moreover have "db_wf (ii_db ii) \<longrightarrow> db_wf s1"
    using wf by (simp add: db_wf_put)
  moreover have "db_get s1 k = (if k \<in> (\<lambda>t. makeKey t f) ` set (tok # toks) then Some [] else db_get (ii_db ii) k)" for k
    unfolding g by (simp add: db_get_put)
  ultimately show ?case by blast
qed

text \<open>
  C10: for the presence-only index, for every file name and contents, calling \<open>Add\<close>
  twice in succession leaves the store in the state that the first call left: the second
  call succeeds and changes nothing.
\<close>

theorem C10_Add_idempotent:
  assumes "db_wf (ii_db ii)"
  shows "\<exists>ii1. InvertedIndex_Add filename contents ii = (None, ii1) \<and>
               InvertedIndex_Add filename contents ii1 = (None, ii1)"
proof -
  let ?toks = "tokenize contents"
  let ?K = "(\<lambda>t. makeKey t filename) ` set ?toks"
  from InvertedIndex_Add_loop_result [of filename ?toks ii] obtain s1 where
    r1: "InvertedIndex_Add_loop filename ?toks ii = (None, \<lparr>ii_db = s1\<rparr>)" and
    wf1: "db_wf s1" and
    g1: "\<And>k. db_get s1 k = (if k \<in> ?K then Some [] else db_get (ii_db ii) k)"
    using assms by blast
  from InvertedIndex_Add_loop_result [of filename ?toks "\<lparr>ii_db = s1\<rparr>"] obtain s2 where
    r2: "InvertedIndex_Add_loop filename ?toks \<lparr>ii_db = s1\<rparr> = (None, \<lparr>ii_db = s2\<rparr>)" and
    wf2: "db_wf s2" and
    g2: "\<And>k. db_get s2 k = (if k \<in> ?K then Some [] else db_get s1 k)"
    using wf1 by auto
  have "s2 = s1"
    by (rule db_wf_eqI [OF wf2 wf1]) (simp add: g2 g1)
  then show ?thesis
    using r1 r2 by (auto simp: InvertedIndex_Add_def)
qed

theorem C10_Add_idempotent_witness:
  "db_wf (ii_db \<lparr>ii_db = []\<rparr>) \<and>
   (\<exists>ii1. InvertedIndex_Add ''a'' ''hello world'' \<lparr>ii_db = []\<rparr> = (None, ii1) \<and>
          InvertedIndex_Add ''a'' ''hello world'' ii1 = (None, ii1))"
  using C10_Add_idempotent [of "\<lparr>ii_db = []\<rparr>" "''a''" "''hello world''"]
  by (simp add: db_wf_def)

section \<open>Opening an index whose cached counts are malformed\<close>

text \<open>
  C8 asks that opening aborts with a CorruptIndex error when a persisted Corpus Term Count
  has a length other than 4. On the store that holds the three bytes \<open>[0, 0, 1]\<close> under
  the key \<open>dfx\<close>, \<open>loadDFCache\<close> does return that error, and \<open>OpenVectorIndex\<close>
  returns no error: it returns an index handle whose cache is the nil map.
\<close>

theorem C8_open_ignores_corrupt_count:
  "loadDFCache [(''dfx'', [0, 0, 1])] = Inl CorruptIndex \<and>
   OpenVectorIndex (Inr [(''dfx'', [0, 0, 1])])
     = Inr \<lparr>db = [(''dfx'', [0, 0, 1])], dfCache = None\<rparr>"
  by (simp add: OpenVectorIndex_def loadDFCache_def loadDFCache_iterFunc_def iterate_def
      db_scan_def dfPrefix_def)

section \<open>The two scenarios of the tests\<close>







lemma scenario_B_adds:
  "InvertedIndex_Add ''a'' ''hello world'' \<lparr>ii_db = []\<rparr>
     = (None, snd (InvertedIndex_Add ''a'' ''hello world'' \<lparr>ii_db = []\<rparr>)) \<and>
   InvertedIndex_Add ''b'' ''hello tiger'' (snd (InvertedIndex_Add ''a'' ''hello world'' \<lparr>ii_db = []\<rparr>))
     = (None, snd (InvertedIndex_Add ''b'' ''hello tiger''
                (snd (InvertedIndex_Add ''a'' ''hello world'' \<lparr>ii_db = []\<rparr>)))) \<and>
   InvertedIndex_Add ''c'' ''rumic world''
       (snd (InvertedIndex_Add ''b'' ''hello tiger''
          (snd (InvertedIndex_Add ''a'' ''hello world'' \<lparr>ii_db = []\<rparr>))))
     = (None, scenario_B)"
  unfolding scenario_B_def by code_simp

lemma scenario_B_searches:
  "InvertedIndex_Search ''hello'' scenario_B = Inr [''a'', ''b''] \<and>
   InvertedIndex_Search ''world'' scenario_B = Inr [''a'', ''c''] \<and>
   InvertedIndex_Search ''tiger'' scenario_B = Inr [''b'']"
  unfolding scenario_B_def by code_simp

text \<open>
  C9: from a freshly opened empty presence-only index, after \<open>Add("a", "hello world")\<close>,
  \<open>Add("b", "hello tiger")\<close> and \<open>Add("c", "rumic world")\<close>, \<open>Search("hello")\<close> returns
  the documents a and b, \<open>Search("world")\<close> returns a and c, and \<open>Search("tiger")\<close>
  returns b, each result listed in the order in which the store iterates over its keys.
\<close>

theorem C9_scenario_B:
  "\<exists>i0 i1 i2 i3.
     OpenInvertedIndex (Inr []) = Inr i0 \<and>
     InvertedIndex_Add ''a'' ''hello world'' i0 = (None, i1) \<and>
     InvertedIndex_Add ''b'' ''hello tiger'' i1 = (None, i2) \<and>
     InvertedIndex_Add ''c'' ''rumic world'' i2 = (None, i3) \<and>
     InvertedIndex_Search ''hello'' i3 = Inr [''a'', ''b''] \<and>
     InvertedIndex_Search ''world'' i3 = Inr [''a'', ''c''] \<and>
     InvertedIndex_Search ''tiger'' i3 = Inr [''b'']"
proof -
  have "OpenInvertedIndex (Inr []) = Inr \<lparr>ii_db = []\<rparr>"
    by (simp add: OpenInvertedIndex_def)
  then show ?thesis
    using scenario_B_adds scenario_B_searches by blast
qed

section \<open>The similarity score\<close>

subsection \<open>Sums over association lists\<close>





subsection \<open>The query vector\<close>






subsection \<open>The document vector\<close>




lemma FT_key: "ftPrefix @ joinWithNullSep d t = (ftPrefix @ d @ [nullByte]) @ t"
  by (simp add: joinWithNullSep_def)



lemma spec_FT_absent:
  assumes "db_get (db v) ((ftPrefix @ d @ [nullByte]) @ t) = None"
  shows "spec_FT v d t = 0"
  using assms unfolding spec_FT_def FT_def FT_key stored_count_def count_at_def by simp




subsection \<open>The score\<close>

text \<open>
  When the cache mirrors the persisted counts, the corpus count that the score uses is
  the persisted Corpus Term Count.
\<close>

lemma spec_corpus_count_persisted:
  assumes "cache_synced v"
  shows "CorpusCount v t = Some (spec_corpus_count v t)"
proof -
  from assms obtain c where c: "dfCache v = Some c" "\<And>t. c t = decoded_df (db v) t"
    and len: "\<And>t b. db_get (db v) (dfPrefix @ t) = Some b \<Longrightarrow> length b = 4"
    by (auto simp: cache_synced_def)
  show ?thesis
  proof (cases "db_get (db v) (dfPrefix @ t)")
    case None
    then show ?thesis
      using c by (simp add: CorpusCount_def stored_count_def count_at_def spec_corpus_count_def
          cache_lookup_def decoded_df_def)
  next
    case (Some b)
    then obtain n where "Uint32 b = Some n"
      using len Uint32_Some by blast
    then show ?thesis
      using c Some len [OF Some]
      by (simp add: CorpusCount_def stored_count_def count_at_def spec_corpus_count_def
          cache_lookup_def decoded_df_def)
  qed
qed



subsection \<open>The divisors of the score\<close>

lemma increment_positive:
  assumes "increment k v = (None, v')" and "counts_positive (db v)"
  shows "counts_positive (db v')"
proof -
  from increment_success [OF assms(1)] obtain n b' where
    n: "n \<noteq> MaxUint32" and b': "length b' = 4" "Uint32 b' = Some (n + 1)" and
    v': "v' = v\<lparr>db := db_put k b' (db v)\<rparr>" by blast
  have "n + 1 \<noteq> 0"
    using unat_succ [OF n] by (metis Zero_not_Suc unat_0)
  then show ?thesis
    using assms(2) b' unfolding counts_positive_def v' count_at_def
    by (auto simp: db_get_put)
qed

lemma increment_all_positive:
  "increment_all ks v = (None, v') \<Longrightarrow> counts_positive (db v) \<Longrightarrow> counts_positive (db v')"
proof (induction ks arbitrary: v)
  case Nil
  then show ?case by simp
next
  case (Cons k ks)
  from Cons.prems(1) obtain v1 where
    a: "increment k v = (None, v1)" and r: "increment_all ks v1 = (None, v')"
    by (auto split: prod.splits option.splits)
  show ?case
    by (rule Cons.IH [OF r increment_positive [OF a Cons.prems(2)]])
qed

lemma Add_loop_positive:
  "Add_loop f toks v = (None, v') \<Longrightarrow> counts_positive (db v) \<Longrightarrow> counts_positive (db v')"
proof (induction toks arbitrary: v)
  case Nil
  then show ?case by simp
next
  case (Cons tok toks)
  from Add_loop_Cons_success [OF Cons.prems(1)] obtain v1 c where
    inc: "increment_all [ftPrefix @ joinWithNullSep f tok, dfPrefix @ tok,
                    tfPrefix @ joinWithNullSep tok f] v = (None, v1)" and
    rest: "Add_loop f toks (v1\<lparr>dfCache := Some (c(tok \<mapsto> (case c tok of None \<Rightarrow> 0 | Some n \<Rightarrow> n) + 1))\<rparr>)
             = (None, v')"
    by blast
  have "counts_positive (db v1)"
    by (rule increment_all_positive [OF inc Cons.prems(2)])
  then show ?case
    using Cons.IH [OF rest] by simp
qed

lemma Add_all_positive:
  "Add_all adds v = (None, v') \<Longrightarrow> counts_positive (db v) \<Longrightarrow> counts_positive (db v')"
proof (induction adds arbitrary: v)
  case Nil
  then show ?case by simp
next
  case (Cons a adds)
  from Cons.prems(1) obtain v1 where
    a: "Add_loop (fst a) (tokenize (snd a)) v = (None, v1)" and r: "Add_all adds v1 = (None, v')"
    by (auto simp: VectorIndex_Add_def split: prod.splits option.splits)
  show ?case
    by (rule Cons.IH [OF r Add_loop_positive [OF a Cons.prems(2)]])
qed

lemma occurrences_le_total:
  "occurrences adds d t \<le> sum_list (map (\<lambda>a. count_list (tokenize (snd a)) t) adds)"
  by (induction adds) (auto simp: occurrences_def)

text \<open>
  In an index built by successful \<open>Add\<close> calls from the empty index, for a document
  that has a term of the query, no divisor of the score is 0: the exact division of the
  model is then the division that the code performs, up to rounding.
\<close>

lemma built_index_divisors:
  assumes "OpenVectorIndex (Inr []) = Inr v0" and "Add_all adds v0 = (None, v)"
    and "\<forall>a\<in>set adds. nullByte \<notin> set (fst a)" and "nullByte \<notin> set d"
    and "t \<in> set (tokenize q)" and "spec_FT v d t \<noteq> 0"
  shows "(\<forall>t'. spec_FT v d t' \<noteq> 0 \<longrightarrow> spec_corpus_count v t' \<noteq> 0) \<and>
         (\<forall>t'\<in>spec_query_terms v q. spec_corpus_count v t' \<noteq> 0) \<and>
         spec_mag_query v q \<noteq> 0 \<and> spec_mag_doc v d \<noteq> 0"
proof -
  have v0: "v0 = \<lparr>db = [], dfCache = Some Map.empty\<rparr>"
    using assms(1) OpenVectorIndex_empty by simp
  have "cache_synced v0"
    unfolding v0 by (simp add: cache_synced_def db_wf_Nil db_get_def decoded_df_def)
  then have sync: "cache_synced v"
    by (rule Add_all_synced [OF assms(2)])
  have "counts_positive (db v0)"
    unfolding v0 by (simp add: counts_positive_def count_at_def db_get_def)
  then have pos: "counts_positive (db v)"
    by (rule Add_all_positive [OF assms(2)])
  let ?total = "\<lambda>t. sum_list (map (\<lambda>a. count_list (tokenize (snd a)) t) adds)"
  have cc: "spec_corpus_count v t' = ?total t'" for t'
    using spec_corpus_count_persisted [OF sync, of t'] counts_after_adds [OF assms(1,2), of "dfPrefix @ t'"]
    by (simp add: CorpusCount_def count_Add_all_keys_df)
  have ft: "spec_FT v d t' = occurrences adds d t'" for t'
    using counts_after_adds [OF assms(1,2), of "ftPrefix @ joinWithNullSep d t'"]
    by (simp add: spec_FT_def FT_def count_Add_all_keys_ft [OF assms(3,4)])
  have 1: "spec_corpus_count v t' \<noteq> 0" if "spec_FT v d t' \<noteq> 0" for t'
  proof -
    have "occurrences adds d t' \<noteq> 0"
      using that unfolding ft .
    then have "?total t' \<noteq> 0"
      using occurrences_le_total [of adds d t'] by linarith
    then show ?thesis
      unfolding cc .
  qed
  have 2: "spec_corpus_count v t' \<noteq> 0" if "t' \<in> spec_query_terms v q" for t'
  proof -
    from sync obtain c where c: "dfCache v = Some c" "\<And>t. c t = decoded_df (db v) t"
      by (auto simp: cache_synced_def)
    have "c t' \<noteq> None"
      using that c(1) by (simp add: spec_query_terms_def cache_lookup_def)
    then have "db_get (db v) (dfPrefix @ t') \<noteq> None"
      unfolding c(2) by (auto simp: decoded_df_def split: option.splits)
    then have "count_at (db v) (dfPrefix @ t') \<noteq> Some 0" "count_at (db v) (dfPrefix @ t') \<noteq> None"
      using pos by (auto simp: counts_positive_def)
    then have "CorpusCount v t' \<noteq> Some 0"
      by (auto simp: CorpusCount_def stored_count_def unat_eq_0)
    then show ?thesis
      using spec_corpus_count_persisted [OF sync, of t'] by simp
  qed
  have tq: "t \<in> spec_query_terms v q"
  proof -
    have "spec_corpus_count v t \<noteq> 0"
      by (rule 1 [OF assms(6)])
    then have "cache_lookup (dfCache v) t \<noteq> None"
      by (auto simp: spec_corpus_count_def split: option.splits)
    then show ?thesis
      using assms(5) by (simp add: spec_query_terms_def)
  qed
  have td: "t \<in> spec_doc_terms v d"
    using assms(6) by (simp add: spec_doc_terms_def)
  have finQ: "finite (spec_query_terms v q)"
    by (simp add: spec_query_terms_def)
  have finD: "finite (spec_doc_terms v d)"
  proof -
    have "spec_doc_terms v d \<subseteq> (\<lambda>k. drop (length (ftPrefix @ d @ [nullByte])) k) ` fst ` set (db v)"
    proof
      fix t' assume "t' \<in> spec_doc_terms v d"
      then have "spec_FT v d t' \<noteq> 0" by (simp add: spec_doc_terms_def)
      then have "db_get (db v) ((ftPrefix @ d @ [nullByte]) @ t') \<noteq> None"
        using spec_FT_absent [of v d t'] by auto
      then have "(ftPrefix @ d @ [nullByte]) @ t' \<in> fst ` set (db v)"
        by (auto simp: db_get_def map_of_eq_None_iff)
      then show "t' \<in> (\<lambda>k. drop (length (ftPrefix @ d @ [nullByte])) k) ` fst ` set (db v)"
        by (metis (no_types, lifting) append_eq_conv_conj image_eqI)
    qed
    then show ?thesis
      by (rule finite_subset) simp
  qed
  have wq: "spec_query_weight v q t \<noteq> 0"
    using assms(5) 2 [OF tq] by (simp add: spec_query_weight_def count_list_0_iff)
  have wd: "spec_doc_weight v d t \<noteq> 0"
    using assms(6) 1 [OF assms(6)] by (simp add: spec_doc_weight_def)
  have "spec_mag_query v q \<noteq> 0"
    unfolding spec_mag_query_def using finQ tq wq
    by (auto simp: sum_nonneg_eq_0_iff)
  moreover have "spec_mag_doc v d \<noteq> 0"
    unfolding spec_mag_doc_def using finD td wd
    by (auto simp: sum_nonneg_eq_0_iff)
  ultimately show ?thesis
    using 1 2 by blast
qed

end
